theory Spec2Isabelle
  imports Main "HOL-Library.Word"
begin

section \<open>Data model\<close>

text \<open>
  The repository holds four load-balancing strategies. Go's \<open>int\<close> is the 64-bit signed
  integer: a \<open>64 word\<close> whose \<open>+\<close> and \<open>-\<close> wrap around, read by \<open>sint\<close> and compared by the
  signed orders \<open><s\<close> and \<open>\<le>s\<close>. The weighted random balancer takes weights that nothing
  validates, so it is modelled over these words throughout.

  The smooth weighted balancer is modelled twice. \<open>swrr_loop64\<close> and \<open>SRR_Next64\<close> compute
  over 64-bit words as the code does, for any accumulators and weights. \<open>swrr_loop\<close> and
  \<open>SRR_Next\<close> compute over HOL's \<open>int\<close>; they are exact on every run of a balancer that the
  constructor accepted with its accumulators at 0: there every value the loop computes stays
  inside the 64-bit range (lemma \<open>srr_after_in_range\<close>) and the two models return the same
  pointers and hold the same accumulators (lemma \<open>srr_after64_exact\<close>).

  The round-robin counter is declared \<open>uint64\<close> and is incremented without bound, so it is
  a \<open>64 word\<close> and wraps. A panic of the source is the \<open>Inl\<close> branch of a sum.
  The slices of \<open>*Server\<close> and \<open>*Node\<close> hold non-nil pointers, so an entry is a record.
\<close>

type_synonym go_int = "64 word"

datatype panic =
    NodesEmpty
  | WeightNotPositive int
  | WeightExceedsMax int int
  | TotalExceedsMax int int
  | ServersEmpty
  | IntnNonPositive

subsection \<open>Plain round-robin (package balance)\<close>

record RoundRobinBalancer =
  servers :: "string list"
  index :: "64 word"

text \<open>\<open>NewRoundRobinBalancer\<close> of package balance stores the slice and leaves the counter at
  its zero value; it has no failing branch.\<close>

definition NewRoundRobinBalancer :: "string list \<Rightarrow> panic + RoundRobinBalancer" where
  "NewRoundRobinBalancer ss = Inr \<lparr>servers = ss, index = 0\<rparr>"

text \<open>\<open>Next\<close>: the empty-list guard, the atomic increment (the new value is returned), the
  unsigned remainder by the length, and the indexed read.\<close>

definition RR_Next :: "RoundRobinBalancer \<Rightarrow> string \<times> RoundRobinBalancer" where
  "RR_Next r =
     (if length (servers r) = 0 then ('''', r)
      else
        let newVal = index r + 1;
            idx = (newVal - 1) mod (of_nat (length (servers r)) :: 64 word)
        in (servers r ! unat idx, r\<lparr>index := newVal\<rparr>))"

text \<open>The balancer after \<open>k\<close> calls, and the value returned by the \<open>k\<close>-th call
  (1-indexed).\<close>

definition rr_after :: "nat \<Rightarrow> RoundRobinBalancer \<Rightarrow> RoundRobinBalancer" where
  "rr_after k r = ((\<lambda>b. snd (RR_Next b)) ^^ k) r"

definition rr_kth :: "nat \<Rightarrow> RoundRobinBalancer \<Rightarrow> string" where
  "rr_kth k r = fst (RR_Next (rr_after (k - 1) r))"

subsection \<open>Plain round-robin (package backend)\<close>

text \<open>The second copy of the strategy: the constructor panics on the empty list and copies
  the slice; its \<open>Next\<close> has no guard.\<close>

definition backend_NewRoundRobinBalancer :: "string list \<Rightarrow> panic + RoundRobinBalancer" where
  "backend_NewRoundRobinBalancer ss =
     (if length ss = 0 then Inl ServersEmpty
      else Inr \<lparr>servers = ss, index = 0\<rparr>)"

subsection \<open>Weighted random\<close>

record Server =
  Addr :: string
  Weight :: go_int

text \<open>\<open>rand.Intn n\<close> panics for \<open>n \<le> 0\<close> and otherwise yields a value of \<open>[0, n)\<close>. The value
  drawn is the parameter \<open>r\<close>; that it lies in \<open>[0, n)\<close> is a hypothesis of the theorems.\<close>

definition Intn :: "go_int \<Rightarrow> go_int \<Rightarrow> panic + go_int" where
  "Intn r n = (if n \<le>s 0 then Inl IntnNonPositive else Inr r)"

text \<open>The selection loop: subtract each weight from \<open>idx\<close>, wrapping as Go does, and stop at
  the first entry that leaves it negative. The result is the position of that entry,
  \<open>None\<close> when the loop runs off the end of the list.\<close>

fun walk :: "Server list \<Rightarrow> go_int \<Rightarrow> nat option" where
  "walk [] idx = None"
| "walk (s # ss) idx =
     (let idx' = idx - Weight s
      in if idx' <s 0 then Some 0 else map_option Suc (walk ss idx'))"

text \<open>The total, as the first loop of \<open>Next\<close> accumulates it: a wrapping sum.\<close>

definition total_weight :: "Server list \<Rightarrow> go_int" where
  "total_weight ss = foldl (\<lambda>t s. t + Weight s) 0 ss"

definition RW_Next :: "Server list \<Rightarrow> go_int \<Rightarrow> panic + string" where
  "RW_Next ss r =
     (if length ss = 0 then Inr ''''
      else
        let totalWeight = total_weight ss
        in if totalWeight \<le>s 0 then Inr ''''
           else (case Intn r totalWeight of
                   Inl e \<Rightarrow> Inl e
                 | Inr idx \<Rightarrow>
                     (case walk ss idx of
                        Some i \<Rightarrow> Inr (Addr (ss ! i))
                      | None \<Rightarrow> Inr (Addr (ss ! 0)))))"

text \<open>The value of \<open>idx\<close> after the entry at position \<open>i\<close> has been subtracted.\<close>

definition running :: "Server list \<Rightarrow> go_int \<Rightarrow> nat \<Rightarrow> go_int" where
  "running ss r i = r - sum_list (map Weight (take (Suc i) ss))"




subsection \<open>Smooth weighted round-robin\<close>

record Node =
  server :: string
  current :: int
  weight :: int

definition maxWeight :: int where
  "maxWeight = 1000000"

definition maxTotalWeight :: int where
  "maxTotalWeight = 10000000"

record smoothRoundRobinBalancer =
  nodes :: "Node list"

text \<open>The validation loop of the constructor: it panics at the first node whose weight is
  not positive or is above \<open>maxWeight\<close>, and accumulates the total otherwise.\<close>

fun check_weights :: "Node list \<Rightarrow> int \<Rightarrow> panic + int" where
  "check_weights [] totalWeight = Inr totalWeight"
| "check_weights (node # rest) totalWeight =
     (if weight node \<le> 0 then Inl (WeightNotPositive (weight node))
      else if weight node > maxWeight then Inl (WeightExceedsMax (weight node) maxWeight)
      else check_weights rest (totalWeight + weight node))"

definition NewSmoothRRBalancer :: "Node list \<Rightarrow> panic + smoothRoundRobinBalancer" where
  "NewSmoothRRBalancer ns =
     (if length ns = 0 then Inl NodesEmpty
      else (case check_weights ns 0 of
              Inl e \<Rightarrow> Inl e
            | Inr totalWeight \<Rightarrow>
                if totalWeight > maxTotalWeight
                then Inl (TotalExceedsMax totalWeight maxTotalWeight)
                else Inr \<lparr>nodes = ns\<rparr>))"

text \<open>
  The slice holds pointers to pairwise distinct nodes, which the loop of \<open>Next\<close> updates in
  place. The model passes the nodes already visited (\<open>seen\<close>, updated), the nodes still to
  visit, the running total and \<open>bestNode\<close>; a node pointer is the position of the node in
  the slice, \<open>None\<close> is \<open>nil\<close>.
\<close>

fun swrr_loop ::
  "Node list \<Rightarrow> Node list \<Rightarrow> int \<Rightarrow> nat option \<Rightarrow> Node list \<times> int \<times> nat option" where
  "swrr_loop seen [] totalWeight bestNode = (seen, totalWeight, bestNode)"
| "swrr_loop seen (node # rest) totalWeight bestNode =
     (let node' = node\<lparr>current := current node + weight node\<rparr>;
          totalWeight' = totalWeight + weight node;
          bestNode' = (case bestNode of
                         None \<Rightarrow> Some (length seen)
                       | Some b \<Rightarrow>
                           if current node' > current (seen ! b)
                           then Some (length seen) else Some b)
      in swrr_loop (seen @ [node']) rest totalWeight' bestNode')"

definition SRR_Next ::
  "smoothRoundRobinBalancer \<Rightarrow> nat option \<times> smoothRoundRobinBalancer" where
  "SRR_Next r =
     (case swrr_loop [] (nodes r) 0 None of
        (ns, totalWeight, bestNode) \<Rightarrow>
          (case bestNode of
             None \<Rightarrow> (None, r\<lparr>nodes := ns\<rparr>)
           | Some b \<Rightarrow>
               (Some b,
                r\<lparr>nodes := ns[b := (ns ! b)\<lparr>current := current (ns ! b) - totalWeight\<rparr>]\<rparr>)))"

text \<open>The balancer after \<open>k\<close> calls and the pointers returned by the first \<open>k\<close> calls.\<close>

fun srr_after :: "nat \<Rightarrow> smoothRoundRobinBalancer \<Rightarrow> smoothRoundRobinBalancer" where
  "srr_after 0 r = r"
| "srr_after (Suc k) r = srr_after k (snd (SRR_Next r))"

fun srr_run :: "nat \<Rightarrow> smoothRoundRobinBalancer \<Rightarrow> nat option list" where
  "srr_run 0 r = []"
| "srr_run (Suc k) r = fst (SRR_Next r) # srr_run k (snd (SRR_Next r))"

text \<open>The server names of a list of returned pointers, as a caller reads them.\<close>

definition served :: "smoothRoundRobinBalancer \<Rightarrow> nat option list \<Rightarrow> string list" where
  "served r ps = map (\<lambda>p. case p of None \<Rightarrow> '''' | Some i \<Rightarrow> server (nodes r ! i)) ps"

subsection \<open>Smooth weighted round-robin over 64-bit integers\<close>

text \<open>The same loop and the same \<open>Next\<close> with Go's arithmetic: \<open>current\<close> and \<open>weight\<close> are
  64-bit words, \<open>+=\<close> and \<open>-=\<close> wrap, and \<open>>\<close> is the signed comparison. The state is the
  slice of nodes.\<close>

record Node64 =
  server64 :: string
  current64 :: go_int
  weight64 :: go_int







text \<open>The slice after \<open>node.current += node.weight\<close> has run at every node.\<close>

definition bump64 :: "Node64 list \<Rightarrow> Node64 list" where
  "bump64 ns = map (\<lambda>n. n\<lparr>current64 := current64 n + weight64 n\<rparr>) ns"

text \<open>For the proofs over the integers: the node list after the increments of one pass of
  the loop, the property of the pointer the loop ends with (a maximal accumulator, the first
  such in list order), and the sum of the weights.\<close>

definition bump :: "Node list \<Rightarrow> Node list" where
  "bump ns = map (\<lambda>n. n\<lparr>current := current n + weight n\<rparr>) ns"

definition is_best :: "Node list \<Rightarrow> nat \<Rightarrow> bool" where
  "is_best ns b \<longleftrightarrow>
     b < length ns \<and> (\<forall>j<length ns. current (ns ! j) \<le> current (ns ! b)) \<and>
     (\<forall>j<b. current (ns ! j) < current (ns ! b))"

definition weights_total :: "Node list \<Rightarrow> int" where
  "weights_total ns = sum_list (map weight ns)"

subsection \<open>Example pools\<close>


definition pool_all_zero :: "Server list" where
  "pool_all_zero =
     [\<lparr>Addr = ''server1'', Weight = 0\<rparr>, \<lparr>Addr = ''server2'', Weight = 0\<rparr>]"

definition pool_negative :: "Server list" where
  "pool_negative =
     [\<lparr>Addr = ''server1'', Weight = 5\<rparr>, \<lparr>Addr = ''server2'', Weight = - 10\<rparr>,
      \<lparr>Addr = ''server3'', Weight = 20\<rparr>]"

text \<open>Pools with weights at the ends of the 64-bit range: \<open>- 2^63\<close> is the least and
  \<open>2^63 - 1\<close> the greatest value of Go's \<open>int\<close>.\<close>

definition pool_min_max :: "Server list" where
  "pool_min_max =
     [\<lparr>Addr = ''server1'', Weight = - 9223372036854775808\<rparr>,
      \<lparr>Addr = ''server2'', Weight = 9223372036854775807\<rparr>,
      \<lparr>Addr = ''server3'', Weight = 2\<rparr>]"

definition pool_min_neg :: "Server list" where
  "pool_min_neg =
     [\<lparr>Addr = ''server1'', Weight = - 9223372036854775808\<rparr>,
      \<lparr>Addr = ''server2'', Weight = - 1\<rparr>]"


definition three_servers :: "string list" where
  "three_servers = [''s1'', ''s2'', ''s3'']"

definition two_servers :: "string list" where
  "two_servers = [''s1'', ''s2'']"

definition nodes_511 :: "Node list" where
  "nodes_511 =
     [\<lparr>server = ''a'', current = 0, weight = 5\<rparr>,
      \<lparr>server = ''b'', current = 0, weight = 1\<rparr>,
      \<lparr>server = ''c'', current = 0, weight = 1\<rparr>]"

definition nodes_41 :: "Node list" where
  "nodes_41 =
     [\<lparr>server = ''a'', current = 0, weight = 4\<rparr>,
      \<lparr>server = ''b'', current = 0, weight = 1\<rparr>]"


definition balancer_41 :: smoothRoundRobinBalancer where
  "balancer_41 = \<lparr>nodes = nodes_41\<rparr>"

definition balancer_511 :: smoothRoundRobinBalancer where
  "balancer_511 = \<lparr>nodes = nodes_511\<rparr>"

section \<open>Auxiliary facts: weighted random and plain round-robin\<close>

lemma of_int_sint_same: "word_of_int (sint w) = (w :: go_int)"
  by simp

lemma sint_of_int_in_range:
  "- (2 ^ 63) \<le> x \<Longrightarrow> x < 2 ^ 63 \<Longrightarrow> sint (word_of_int x :: go_int) = x"
  by (simp add: sint_sbintrunc' signed_take_bit_int_eq_self)

lemma sint_bounds: "- (2 ^ 63) \<le> sint (w :: go_int)" "sint (w :: go_int) < 2 ^ 63"
  using sint_ge [of w] sint_lt [of w] by simp_all

lemma sint_diff_in_range:
  "- (2 ^ 63) \<le> sint a - sint b \<Longrightarrow> sint a - sint b < 2 ^ 63 \<Longrightarrow>
     sint (a - b :: go_int) = sint a - sint b"
  by (simp add: sint_word_diff signed_take_bit_int_eq_self)

lemma total_weight_foldl:
  "foldl (\<lambda>t s. t + Weight s) a ss = a + sum_list (map Weight ss)"
  by (induction ss arbitrary: a) simp_all

lemma total_weight_sum: "total_weight ss = sum_list (map Weight ss)"
  by (simp add: total_weight_def total_weight_foldl)

lemma weight_sum_of_int:
  "sum_list (map Weight ss) = word_of_int (sum_list (map (\<lambda>s. sint (Weight s)) ss))"
  by (induction ss) (simp_all add: wi_hom_syms)

lemma total_weight_exact:
  assumes "- (2 ^ 63) \<le> sum_list (map (\<lambda>s. sint (Weight s)) ss)"
    and "sum_list (map (\<lambda>s. sint (Weight s)) ss) < 2 ^ 63"
  shows "sint (total_weight ss) = sum_list (map (\<lambda>s. sint (Weight s)) ss)"
  unfolding total_weight_sum weight_sum_of_int using assms by (rule sint_of_int_in_range)

lemma walk_Some_iff:
  "walk ss r = Some i \<longleftrightarrow>
     i < length ss \<and> running ss r i <s 0 \<and> (\<forall>j<i. \<not> running ss r j <s 0)"
  unfolding running_def
proof (induction ss arbitrary: r i)
  case Nil
  show ?case by simp
next
  case (Cons s ss)
  show ?case
  proof (cases "r - Weight s <s 0")
    case True
    show ?thesis
    proof (cases i)
      case 0
      with True show ?thesis by simp
    next
      case (Suc i')
      have "\<not> (\<forall>j<Suc i'. \<not> r - sum_list (map Weight (take (Suc j) (s # ss))) <s 0)"
        using True by (auto intro: exI [of _ 0])
      with True Suc show ?thesis by simp
    qed
  next
    case False
    show ?thesis
    proof (cases i)
      case 0
      with False show ?thesis by simp
    next
      case (Suc i')
      have "(\<forall>j<Suc i'. \<not> r - sum_list (map Weight (take (Suc j) (s # ss))) <s 0) \<longleftrightarrow>
            (\<forall>j<i'. \<not> (r - Weight s) - sum_list (map Weight (take (Suc j) ss)) <s 0)"
        using False by (simp add: All_less_Suc2 diff_diff_eq)
      with False Suc Cons.IH [of "r - Weight s" i'] show ?thesis
        by (simp add: diff_diff_eq)
    qed
  qed
qed

lemma walk_None_running:
  "0 \<le>s idx \<Longrightarrow> walk ss idx = None \<Longrightarrow> 0 \<le>s idx - sum_list (map Weight ss)"
proof (induction ss arbitrary: idx)
  case Nil
  then show ?case by simp
next
  case (Cons s ss)
  from Cons.prems have ge: "0 \<le>s idx - Weight s" and rest: "walk ss (idx - Weight s) = None"
    by (auto simp: Let_def word_sle_eq word_sless_alt split: if_splits)
  from Cons.IH [OF ge rest] show ?case by (simp add: diff_diff_eq)
qed


lemma RW_Next_walk:
  assumes "0 <s total_weight ss" and "walk ss r = Some i"
  shows "RW_Next ss r = Inr (Addr (ss ! i))"
proof -
  from assms(1) have "ss \<noteq> []" by (auto simp: total_weight_def)
  moreover from assms(1) have "\<not> total_weight ss \<le>s 0"
    by (simp add: word_sle_eq word_sless_alt)
  ultimately show ?thesis using assms(2) by (simp add: RW_Next_def Intn_def Let_def)
qed









lemma pool_negative_total: "total_weight pool_negative = 15"
  by (simp add: total_weight_def pool_negative_def)

lemma pool_min_max_total: "total_weight pool_min_max = 1"
  by (simp add: total_weight_def pool_min_max_def)

lemma pool_min_neg_total: "total_weight pool_min_neg = 9223372036854775807"
  by (simp add: total_weight_def pool_min_neg_def)



lemma rr_after_Suc: "rr_after (Suc k) r = snd (RR_Next (rr_after k r))"
  by (simp add: rr_after_def)

lemma rr_after_state:
  "servers r \<noteq> [] \<Longrightarrow>
     servers (rr_after k r) = servers r \<and> index (rr_after k r) = index r + of_nat k"
proof (induction k)
  case 0
  show ?case by (simp add: rr_after_def)
next
  case (Suc k)
  then show ?case by (simp add: rr_after_Suc RR_Next_def Let_def)
qed

lemma rr_kth_formula:
  assumes "ss \<noteq> []" and "length ss < 2 ^ 64"
  shows "rr_kth (Suc j) \<lparr>servers = ss, index = 0\<rparr> = ss ! ((j mod 2 ^ 64) mod length ss)"
proof -
  let ?r = "\<lparr>servers = ss, index = 0\<rparr>"
  have st: "servers (rr_after j ?r) = ss" "index (rr_after j ?r) = of_nat j"
    using rr_after_state [of ?r j] assms(1) by simp_all
  have "unat ((of_nat j :: 64 word) mod of_nat (length ss)) = (j mod 2 ^ 64) mod length ss"
    using assms(2) by (simp add: unat_mod unat_of_nat)
  then show ?thesis
    using assms(1) by (simp add: rr_kth_def RR_Next_def st Let_def)
qed

section \<open>Auxiliary facts: smooth weighted round-robin\<close>

lemma bump_simps [simp]:
  "bump [] = []" "bump (n # ns) = n\<lparr>current := current n + weight n\<rparr> # bump ns"
  "length (bump ns) = length ns"
  by (simp_all add: bump_def)

lemma bump_nth:
  "i < length ns \<Longrightarrow> bump ns ! i = (ns ! i)\<lparr>current := current (ns ! i) + weight (ns ! i)\<rparr>"
  by (simp add: bump_def)

lemma swrr_loop_nodes: "fst (swrr_loop seen rest t b) = seen @ bump rest"
  by (induction rest arbitrary: seen t b) (simp_all add: Let_def)

lemma swrr_loop_total: "fst (snd (swrr_loop seen rest t b)) = t + sum_list (map weight rest)"
  by (induction rest arbitrary: seen t b) (simp_all add: Let_def)

lemma is_best_single: "is_best [n] 0"
  by (simp add: is_best_def)

lemma is_best_snoc_new:
  assumes "is_best seen b" and "current (seen ! b) < current n"
  shows "is_best (seen @ [n]) (length seen)"
proof -
  have le: "current (seen ! j) \<le> current (seen ! b)" if "j < length seen" for j
    using assms(1) that by (simp add: is_best_def)
  have "current ((seen @ [n]) ! j) \<le> current n" if "j < length (seen @ [n])" for j
  proof (cases "j < length seen")
    case True
    with le [OF True] assms(2) show ?thesis by (simp add: nth_append)
  next
    case False
    with that have "j = length seen" by simp
    then show ?thesis by simp
  qed
  moreover have "current ((seen @ [n]) ! j) < current n" if "j < length seen" for j
    using le [OF that] assms(2) that by (simp add: nth_append)
  ultimately show ?thesis by (simp add: is_best_def)
qed

lemma is_best_snoc_keep:
  assumes "is_best seen b" and "\<not> current (seen ! b) < current n"
  shows "is_best (seen @ [n]) b"
proof -
  from assms(1) have b: "b < length seen" by (simp add: is_best_def)
  have le: "current (seen ! j) \<le> current (seen ! b)" if "j < length seen" for j
    using assms(1) that by (simp add: is_best_def)
  have lt: "current (seen ! j) < current (seen ! b)" if "j < b" for j
    using assms(1) that by (simp add: is_best_def)
  have "current ((seen @ [n]) ! j) \<le> current ((seen @ [n]) ! b)"
    if "j < length (seen @ [n])" for j
  proof (cases "j < length seen")
    case True
    with le [OF True] b show ?thesis by (simp add: nth_append)
  next
    case False
    with that have "j = length seen" by simp
    with assms(2) b show ?thesis by (simp add: nth_append)
  qed
  moreover have "current ((seen @ [n]) ! j) < current ((seen @ [n]) ! b)" if "j < b" for j
    using lt [OF that] that b by (simp add: nth_append)
  ultimately show ?thesis using b by (simp add: is_best_def)
qed

lemma swrr_loop_best:
  assumes "(best = None \<and> seen = []) \<or> (\<exists>b. best = Some b \<and> is_best seen b)"
  shows "(snd (snd (swrr_loop seen rest t best)) = None \<and> seen @ rest = []) \<or>
         (\<exists>b. snd (snd (swrr_loop seen rest t best)) = Some b \<and> is_best (seen @ bump rest) b)"
  using assms
proof (induction rest arbitrary: seen t best)
  case Nil
  then show ?case by auto
next
  case (Cons node rest)
  let ?n = "node\<lparr>current := current node + weight node\<rparr>"
  let ?best = "case best of None \<Rightarrow> Some (length seen)
               | Some b \<Rightarrow> if current ?n > current (seen ! b) then Some (length seen) else Some b"
  have step: "swrr_loop seen (node # rest) t best
                = swrr_loop (seen @ [?n]) rest (t + weight node) ?best"
    by (simp add: Let_def)
  have "\<exists>b. ?best = Some b \<and> is_best (seen @ [?n]) b"
  proof (cases best)
    case None
    with Cons.prems have "seen = []" by simp
    with None show ?thesis by (simp add: is_best_single)
  next
    case (Some b)
    with Cons.prems have ib: "is_best seen b" by simp
    show ?thesis
    proof (cases "current (seen ! b) < current ?n")
      case True
      from is_best_snoc_new [OF ib True] True Some show ?thesis by simp
    next
      case False
      from is_best_snoc_keep [OF ib False] False Some show ?thesis by simp
    qed
  qed
  then have "(?best = None \<and> seen @ [?n] = []) \<or> (\<exists>b. ?best = Some b \<and> is_best (seen @ [?n]) b)"
    by blast
  from Cons.IH [OF this, of "t + weight node"] show ?case
    unfolding step by simp
qed

lemma SRR_Next_empty: "nodes r = [] \<Longrightarrow> SRR_Next r = (None, r)"
  by (simp add: SRR_Next_def)

lemma SRR_Next_step:
  assumes "nodes r \<noteq> []"
  shows "\<exists>b. is_best (bump (nodes r)) b \<and>
           SRR_Next r =
             (Some b,
              r\<lparr>nodes := (bump (nodes r))
                 [b := (bump (nodes r) ! b)
                    \<lparr>current := current (bump (nodes r) ! b) - weights_total (nodes r)\<rparr>]\<rparr>)"
proof -
  obtain ns t best where loop: "swrr_loop [] (nodes r) 0 None = (ns, t, best)"
    by (cases "swrr_loop [] (nodes r) 0 None") blast
  have ns: "ns = bump (nodes r)"
    using swrr_loop_nodes [of "[]" "nodes r" 0 None] loop by simp
  have t: "t = weights_total (nodes r)"
    using swrr_loop_total [of "[]" "nodes r" 0 None] loop by (simp add: weights_total_def)
  have "(best = None \<and> [] @ nodes r = []) \<or> (\<exists>b. best = Some b \<and> is_best ([] @ bump (nodes r)) b)"
    using swrr_loop_best [of None "[]" "nodes r" 0] loop by simp
  with assms obtain b where b: "best = Some b" "is_best (bump (nodes r)) b" by auto
  show ?thesis
    using b by (intro exI [of _ b]) (simp add: SRR_Next_def loop ns t)
qed

lemma SRR_Next_length: "length (nodes (snd (SRR_Next r))) = length (nodes r)"
proof (cases "nodes r = []")
  case True
  then show ?thesis by (simp add: SRR_Next_empty)
next
  case False
  from SRR_Next_step [OF False] show ?thesis by auto
qed

lemma SRR_Next_weight:
  assumes "i < length (nodes r)"
  shows "weight (nodes (snd (SRR_Next r)) ! i) = weight (nodes r ! i)"
    and "server (nodes (snd (SRR_Next r)) ! i) = server (nodes r ! i)"
proof -
  from assms have ne: "nodes r \<noteq> []" by auto
  from SRR_Next_step [OF ne] obtain b where
    b: "SRR_Next r =
             (Some b,
              r\<lparr>nodes := (bump (nodes r))
                 [b := (bump (nodes r) ! b)
                    \<lparr>current := current (bump (nodes r) ! b) - weights_total (nodes r)\<rparr>]\<rparr>)"
    and len: "b < length (nodes r)"
    by (auto simp: is_best_def)
  show "weight (nodes (snd (SRR_Next r)) ! i) = weight (nodes r ! i)"
    using assms len by (simp add: b nth_list_update bump_nth)
  show "server (nodes (snd (SRR_Next r)) ! i) = server (nodes r ! i)"
    using assms len by (simp add: b nth_list_update bump_nth)
qed

lemma SRR_Next_weights: "map weight (nodes (snd (SRR_Next r))) = map weight (nodes r)"
  by (rule nth_equalityI) (simp_all add: SRR_Next_length SRR_Next_weight)

lemma SRR_Next_total: "weights_total (nodes (snd (SRR_Next r))) = weights_total (nodes r)"
  by (simp add: weights_total_def SRR_Next_weights)

lemma SRR_Next_current:
  assumes "i < length (nodes r)"
  shows "current (nodes (snd (SRR_Next r)) ! i) =
           current (nodes r ! i) + weight (nodes r ! i)
             - (if fst (SRR_Next r) = Some i then weights_total (nodes r) else 0)"
proof -
  from assms have ne: "nodes r \<noteq> []" by auto
  from SRR_Next_step [OF ne] obtain b where
    b: "SRR_Next r =
             (Some b,
              r\<lparr>nodes := (bump (nodes r))
                 [b := (bump (nodes r) ! b)
                    \<lparr>current := current (bump (nodes r) ! b) - weights_total (nodes r)\<rparr>]\<rparr>)"
    and len: "b < length (nodes r)"
    by (auto simp: is_best_def)
  show ?thesis
    using assms len by (simp add: b nth_list_update bump_nth)
qed

lemma SRR_Next_selected:
  assumes "nodes r \<noteq> []"
  shows "\<exists>b<length (nodes r). fst (SRR_Next r) = Some b \<and>
           (\<forall>j<length (nodes r).
              current (nodes r ! j) + weight (nodes r ! j)
                \<le> current (nodes r ! b) + weight (nodes r ! b)) \<and>
           (\<forall>j<b.
              current (nodes r ! j) + weight (nodes r ! j)
                < current (nodes r ! b) + weight (nodes r ! b))"
proof -
  from SRR_Next_step [OF assms] obtain b where
    ib: "is_best (bump (nodes r)) b" and b: "fst (SRR_Next r) = Some b"
    by auto
  from ib have len: "b < length (nodes r)" by (simp add: is_best_def)
  have "current (nodes r ! j) + weight (nodes r ! j)
          \<le> current (nodes r ! b) + weight (nodes r ! b)" if "j < length (nodes r)" for j
  proof -
    from ib that have "current (bump (nodes r) ! j) \<le> current (bump (nodes r) ! b)"
      by (simp add: is_best_def)
    with that len show ?thesis by (simp add: bump_nth)
  qed
  moreover have "current (nodes r ! j) + weight (nodes r ! j)
          < current (nodes r ! b) + weight (nodes r ! b)" if "j < b" for j
  proof -
    from ib that have "current (bump (nodes r) ! j) < current (bump (nodes r) ! b)"
      by (simp add: is_best_def)
    with that len show ?thesis by (simp add: bump_nth)
  qed
  ultimately show ?thesis using b len by blast
qed

lemma sum_list_map_nth: "sum_list (map f xs) = (\<Sum>i<length xs. f (xs ! i))"
proof -
  have "map f xs = map (\<lambda>i. f (xs ! i)) [0 ..< length xs]"
    by (rule nth_equalityI) simp_all
  then have "sum_list (map f xs) = sum_list (map (\<lambda>i. f (xs ! i)) [0 ..< length xs])"
    by simp
  also have "\<dots> = (\<Sum>i<length xs. f (xs ! i))"
    by (simp add: interv_sum_list_conv_sum_set_nat atLeast0LessThan)
  finally show ?thesis .
qed

lemma SRR_Next_sum:
  "sum_list (map current (nodes (snd (SRR_Next r)))) = sum_list (map current (nodes r))"
proof (cases "nodes r = []")
  case True
  then show ?thesis by (simp add: SRR_Next_empty)
next
  case False
  let ?N = "length (nodes r)"
  let ?T = "weights_total (nodes r)"
  from SRR_Next_selected [OF False] obtain b where
    b: "b < ?N" "fst (SRR_Next r) = Some b" by blast
  have "sum_list (map current (nodes (snd (SRR_Next r))))
          = (\<Sum>i<?N. current (nodes (snd (SRR_Next r)) ! i))"
    by (simp add: sum_list_map_nth SRR_Next_length)
  also have "\<dots> = (\<Sum>i<?N. current (nodes r ! i) + weight (nodes r ! i)
                            - (if b = i then ?T else 0))"
    by (rule sum.cong) (simp_all add: SRR_Next_current b)
  also have "\<dots> = (\<Sum>i<?N. current (nodes r ! i)) + (\<Sum>i<?N. weight (nodes r ! i))
                      - (\<Sum>i<?N. if b = i then ?T else 0)"
    by (simp add: sum_subtractf sum.distrib)
  also have "(\<Sum>i<?N. if b = i then ?T else 0) = ?T"
    using b(1) by simp
  also have "(\<Sum>i<?N. weight (nodes r ! i)) = ?T"
    by (simp add: weights_total_def sum_list_map_nth)
  finally show ?thesis by (simp add: sum_list_map_nth)
qed

lemma srr_after_length: "length (nodes (srr_after k r)) = length (nodes r)"
  by (induction k arbitrary: r) (simp_all add: SRR_Next_length)


lemma srr_after_sum:
  "sum_list (map current (nodes (srr_after k r))) = sum_list (map current (nodes r))"
  by (induction k arbitrary: r) (simp_all add: SRR_Next_sum)

lemma srr_after_current:
  assumes "i < length (nodes r)"
  shows "current (nodes (srr_after k r) ! i) =
           current (nodes r ! i) + int k * weight (nodes r ! i)
             - weights_total (nodes r) * int (count_list (srr_run k r) (Some i))"
  using assms
proof (induction k arbitrary: r)
  case 0
  show ?case by simp
next
  case (Suc k)
  let ?r = "snd (SRR_Next r)"
  from Suc.prems have i: "i < length (nodes ?r)" by (simp add: SRR_Next_length)
  have "current (nodes (srr_after k ?r) ! i) =
          current (nodes ?r ! i) + int k * weight (nodes ?r ! i)
            - weights_total (nodes ?r) * int (count_list (srr_run k ?r) (Some i))"
    by (rule Suc.IH [OF i])
  also have "current (nodes ?r ! i) =
          current (nodes r ! i) + weight (nodes r ! i)
            - (if fst (SRR_Next r) = Some i then weights_total (nodes r) else 0)"
    by (rule SRR_Next_current [OF Suc.prems])
  also have "weight (nodes ?r ! i) = weight (nodes r ! i)"
    by (rule SRR_Next_weight [OF Suc.prems])
  also have "weights_total (nodes ?r) = weights_total (nodes r)"
    by (rule SRR_Next_total)
  finally show ?case
    by (cases "fst (SRR_Next r) = Some i") (simp_all add: algebra_simps)
qed

lemma weights_total_pos:
  assumes "nodes r \<noteq> []" and "\<forall>i<length (nodes r). 0 < weight (nodes r ! i)"
  shows "0 < weights_total (nodes r)"
proof -
  have "weights_total (nodes r) = (\<Sum>i<length (nodes r). weight (nodes r ! i))"
    by (simp add: weights_total_def sum_list_map_nth)
  moreover have "0 < (\<Sum>i<length (nodes r). weight (nodes r ! i))"
    using assms by (intro sum_pos) auto
  ultimately show ?thesis by simp
qed

lemma SRR_Next_lower:
  assumes pos: "\<forall>i<length (nodes r). 0 < weight (nodes r ! i)"
    and sum0: "sum_list (map current (nodes r)) = 0"
    and low: "\<forall>i<length (nodes r). - weights_total (nodes r) < current (nodes r ! i)"
    and i: "i < length (nodes r)"
  shows "- weights_total (nodes r) < current (nodes (snd (SRR_Next r)) ! i)"
proof -
  let ?N = "length (nodes r)"
  let ?T = "weights_total (nodes r)"
  let ?v = "\<lambda>j. current (nodes r ! j) + weight (nodes r ! j)"
  from i have ne: "nodes r \<noteq> []" by auto
  have T: "0 < ?T" using ne pos by (rule weights_total_pos)
  from SRR_Next_selected [OF ne] obtain b where
    b: "b < ?N" "fst (SRR_Next r) = Some b" and best: "\<forall>j<?N. ?v j \<le> ?v b"
    by blast
  have cur: "current (nodes (snd (SRR_Next r)) ! i) = ?v i - (if b = i then ?T else 0)"
    using SRR_Next_current [OF i] b(2) by simp
  show ?thesis
  proof (cases "b = i")
    case False
    from pos i have "0 < weight (nodes r ! i)" by simp
    moreover from low i have "- ?T < current (nodes r ! i)" by simp
    ultimately have "- ?T < ?v i" by simp
    with cur False show ?thesis by simp
  next
    case True
    have "0 < ?v b"
    proof (rule ccontr)
      assume "\<not> 0 < ?v b"
      then have vb: "?v b \<le> 0" by simp
      have "?v j \<le> 0" if "j < ?N" for j
      proof -
        from best that have "?v j \<le> ?v b" by simp
        with vb show ?thesis by simp
      qed
      then have "(\<Sum>j<?N. ?v j) \<le> 0" by (intro sum_nonpos) simp
      moreover have "(\<Sum>j<?N. ?v j) = sum_list (map current (nodes r)) + ?T"
        by (simp add: sum.distrib weights_total_def sum_list_map_nth)
      ultimately show False using sum0 T by simp
    qed
    with cur True show ?thesis by simp
  qed
qed

lemma srr_after_lower:
  assumes "\<forall>i<length (nodes r). 0 < weight (nodes r ! i)"
    and "sum_list (map current (nodes r)) = 0"
    and "\<forall>i<length (nodes r). - weights_total (nodes r) < current (nodes r ! i)"
    and "i < length (nodes r)"
  shows "- weights_total (nodes r) < current (nodes (srr_after k r) ! i)"
  using assms
proof (induction k arbitrary: r)
  case 0
  then show ?case by simp
next
  case (Suc k)
  let ?r = "snd (SRR_Next r)"
  have len: "length (nodes ?r) = length (nodes r)" by (rule SRR_Next_length)
  have tot: "weights_total (nodes ?r) = weights_total (nodes r)" by (rule SRR_Next_total)
  have pos: "\<forall>i<length (nodes ?r). 0 < weight (nodes ?r ! i)"
    using Suc.prems(1) by (simp add: len SRR_Next_weight)
  have sum0: "sum_list (map current (nodes ?r)) = 0"
    using Suc.prems(2) by (simp add: SRR_Next_sum)
  have low: "\<forall>i<length (nodes ?r). - weights_total (nodes ?r) < current (nodes ?r ! i)"
    unfolding len tot
    using SRR_Next_lower [OF Suc.prems(1) Suc.prems(2) Suc.prems(3)] by blast
  have i: "i < length (nodes ?r)" using Suc.prems(4) by (simp add: len)
  from Suc.IH [OF pos sum0 low i] show ?case by (simp add: tot)
qed

lemma check_weights_Inr:
  "check_weights ns t = Inr t' \<longleftrightarrow>
     (\<forall>n\<in>set ns. 0 < weight n \<and> weight n \<le> maxWeight) \<and> t' = t + sum_list (map weight ns)"
  by (induction ns arbitrary: t) auto

lemma check_weights_Inl:
  "(\<exists>e. check_weights ns t = Inl e) \<longleftrightarrow>
     (\<exists>n\<in>set ns. weight n \<le> 0 \<or> maxWeight < weight n)"
  by (induction ns arbitrary: t) auto


lemma srr_after_add: "srr_after (m + n) r = srr_after n (srr_after m r)"
  by (induction m arbitrary: r) simp_all

lemma length_srr_run: "length (srr_run n r) = n"
  by (induction n arbitrary: r) simp_all

lemma drop_srr_run: "drop k (srr_run n r) = srr_run (n - k) (srr_after k r)"
proof (induction k arbitrary: n r)
  case 0
  show ?case by simp
next
  case (Suc k)
  show ?case by (cases n) (simp_all add: Suc.IH)
qed

lemma take_srr_run: "take m (srr_run n r) = srr_run (min m n) r"
proof (induction m arbitrary: n r)
  case 0
  show ?case by simp
next
  case (Suc m)
  show ?case by (cases n) (simp_all add: Suc.IH)
qed

lemma balancer_41_period: "srr_after 5 balancer_41 = balancer_41"
  by (simp add: eval_nat_numeral SRR_Next_def balancer_41_def nodes_41_def)

lemma balancer_41_periods: "srr_after (5 * q) balancer_41 = balancer_41"
proof (induction q)
  case 0
  show ?case by simp
next
  case (Suc q)
  have "srr_after (5 * Suc q) balancer_41 = srr_after (5 + 5 * q) balancer_41" by simp
  also have "\<dots> = srr_after (5 * q) (srr_after 5 balancer_41)" by (rule srr_after_add)
  finally show ?case by (simp add: balancer_41_period Suc.IH)
qed

lemma balancer_41_mod: "srr_after k balancer_41 = srr_after (k mod 5) balancer_41"
proof -
  have "srr_after k balancer_41 = srr_after (5 * (k div 5) + k mod 5) balancer_41" by simp
  also have "\<dots> = srr_after (k mod 5) (srr_after (5 * (k div 5)) balancer_41)"
    by (rule srr_after_add)
  finally show ?thesis by (simp add: balancer_41_periods)
qed

lemma balancer_41_windows:
  "srr_run 5 (srr_after 0 balancer_41) = [Some 0, Some 0, Some 1, Some 0, Some 0]"
  "srr_run 5 (srr_after 1 balancer_41) = [Some 0, Some 1, Some 0, Some 0, Some 0]"
  "srr_run 5 (srr_after 2 balancer_41) = [Some 1, Some 0, Some 0, Some 0, Some 0]"
  "srr_run 5 (srr_after 3 balancer_41) = [Some 0, Some 0, Some 0, Some 0, Some 1]"
  "srr_run 5 (srr_after 4 balancer_41) = [Some 0, Some 0, Some 0, Some 1, Some 0]"
  by (simp_all add: eval_nat_numeral SRR_Next_def balancer_41_def nodes_41_def)

lemma balancer_41_window_light:
  "Some 1 \<in> set (srr_run 5 (srr_after k balancer_41))"
proof -
  have "k mod 5 < 5" by simp
  then consider "k mod 5 = 0" | "k mod 5 = 1" | "k mod 5 = 2" | "k mod 5 = 3" | "k mod 5 = 4"
    by linarith
  then have "Some 1 \<in> set (srr_run 5 (srr_after (k mod 5) balancer_41))"
    by cases (simp_all only: balancer_41_windows, simp_all)
  then show ?thesis by (simp only: balancer_41_mod [symmetric])
qed




text \<open>The 64-bit model: the sum of the accumulators as a wrapping sum, and the agreement
  with the integer model wherever every value stays in range.\<close>

lemma bump64_simps [simp]:
  "bump64 [] = []"
  "bump64 (n # ns) = n\<lparr>current64 := current64 n + weight64 n\<rparr> # bump64 ns"
  "length (bump64 ns) = length ns"
  by (simp_all add: bump64_def)























section \<open>Weighted random: the claims\<close>




text \<open>
  Claim C5, as amended. Weighted random: when the total that \<open>Next\<close> computes, the sum of
  the weights in 64-bit wrap-around arithmetic, is \<open>\<le> 0\<close>, \<open>Next\<close> returns the empty string
  for every draw and takes no panicking branch. This covers the empty list and every pool
  whose exact sum of weights lies between \<open>- 2^63\<close> and 0.
\<close>

theorem weighted_random_zero_total:
  "(total_weight ss \<le>s 0 \<longrightarrow> RW_Next ss r = Inr '''') \<and>
   (- (2 ^ 63) \<le> sum_list (map (\<lambda>s. sint (Weight s)) ss) \<and>
    sum_list (map (\<lambda>s. sint (Weight s)) ss) \<le> 0 \<longrightarrow> RW_Next ss r = Inr '''') \<and>
   RW_Next [] r = Inr ''''"
proof -
  have a: "RW_Next ss r = Inr ''''" if "total_weight ss \<le>s 0"
    using that by (simp add: RW_Next_def Let_def)
  have b: "RW_Next ss r = Inr ''''"
    if "- (2 ^ 63) \<le> sum_list (map (\<lambda>s. sint (Weight s)) ss)"
      and "sum_list (map (\<lambda>s. sint (Weight s)) ss) \<le> 0"
  proof -
    from that have "sint (total_weight ss) = sum_list (map (\<lambda>s. sint (Weight s)) ss)"
      by (intro total_weight_exact) simp_all
    with that(2) have "total_weight ss \<le>s 0" by (simp add: word_sle_eq)
    then show ?thesis by (rule a)
  qed
  have c: "RW_Next [] r = Inr ''''" by (simp add: RW_Next_def)
  from a b c show ?thesis by blast
qed

theorem weighted_random_zero_total_witness:
  "RW_Next pool_all_zero 0 = Inr '''' \<and>
   sum_list (map (\<lambda>s. sint (Weight s)) pool_all_zero) = 0 \<and>
   RW_Next [\<lparr>Addr = ''server1'', Weight = - 10\<rparr>, \<lparr>Addr = ''server2'', Weight = 4\<rparr>] 3 = Inr ''''"
proof -
  have s1: "sum_list (map (\<lambda>s. sint (Weight s)) pool_all_zero) = 0"
    by (simp add: pool_all_zero_def)
  have t2: "total_weight [\<lparr>Addr = ''server1'', Weight = - 10\<rparr>, \<lparr>Addr = ''server2'', Weight = 4\<rparr>]
              \<le>s 0"
    by (simp add: total_weight_def word_sle_eq)
  from weighted_random_zero_total [of pool_all_zero 0] s1
  have a: "RW_Next pool_all_zero 0 = Inr ''''" by simp
  from weighted_random_zero_total
    [of "[\<lparr>Addr = ''server1'', Weight = - 10\<rparr>, \<lparr>Addr = ''server2'', Weight = 4\<rparr>]" 3] t2
  have b: "RW_Next [\<lparr>Addr = ''server1'', Weight = - 10\<rparr>, \<lparr>Addr = ''server2'', Weight = 4\<rparr>] 3
             = Inr ''''"
    by blast
  from a s1 b show ?thesis by blast
qed

text \<open>The claim as written fails where the total wraps: the weights \<open>- 2^63\<close> and \<open>- 1\<close>
  are negative, their exact sum is \<open>- 2^63 - 1\<close>, the computed total is \<open>2^63 - 1\<close>, and
  \<open>Next\<close> returns the first server.\<close>

theorem weighted_random_zero_total_counterexample:
  "sint (Weight (pool_min_neg ! 0)) = - 9223372036854775808 \<and>
   sint (Weight (pool_min_neg ! 1)) = - 1 \<and>
   sum_list (map (\<lambda>s. sint (Weight s)) pool_min_neg) = - 9223372036854775809 \<and>
   sint (total_weight pool_min_neg) = 9223372036854775807 \<and>
   RW_Next pool_min_neg 0 = Inr ''server1''"
proof -
  have t: "0 <s total_weight pool_min_neg"
    by (simp add: pool_min_neg_total word_sless_alt)
  have w: "walk pool_min_neg 0 = Some 0"
    by (simp add: pool_min_neg_def word_sless_alt)
  have n: "RW_Next pool_min_neg 0 = Inr ''server1''"
    using RW_Next_walk [OF t w] by (simp add: pool_min_neg_def)
  then show ?thesis by (simp add: pool_min_neg_total) (simp add: pool_min_neg_def)
qed




text \<open>
  Claim C10. Weighted random, with \<open>T\<close> the total that \<open>Next\<close> computes: whenever \<open>T > 0\<close>,
  for every draw \<open>r\<close> in \<open>[0, T)\<close> the loop returns from inside (\<open>walk\<close> is not \<open>None\<close>), so
  the trailing fallback to the first server is never taken. This holds with Go's wrapping
  arithmetic, for all weights: \<open>r - T\<close> lies in \<open>[- T, - 1]\<close> and does not wrap.
\<close>

theorem weighted_random_fallback_unreachable:
  assumes "0 <s total_weight ss" and "0 \<le>s r" and "r <s total_weight ss"
  shows "walk ss r \<noteq> None \<and>
         (\<exists>i<length ss. RW_Next ss r = Inr (Addr (ss ! i)) \<and> walk ss r = Some i)"
proof -
  have "walk ss r \<noteq> None"
  proof
    assume none: "walk ss r = None"
    from walk_None_running [OF assms(2) none]
    have ge: "0 \<le> sint (r - total_weight ss)" by (simp add: total_weight_sum word_sle_eq)
    from assms have r: "0 \<le> sint r" "sint r < sint (total_weight ss)"
      by (simp_all add: word_sle_eq word_sless_alt)
    have "sint (r - total_weight ss) = sint r - sint (total_weight ss)"
      using r sint_bounds [of "total_weight ss"] sint_bounds [of r]
      by (intro sint_diff_in_range) simp_all
    with ge r show False by simp
  qed
  then obtain i where i: "walk ss r = Some i" by blast
  then have "i < length ss" by (simp add: walk_Some_iff)
  moreover from assms(1) i have "RW_Next ss r = Inr (Addr (ss ! i))" by (rule RW_Next_walk)
  ultimately show ?thesis using i by blast
qed

theorem weighted_random_fallback_unreachable_witness:
  "0 <s total_weight pool_negative \<and> 14 <s total_weight pool_negative \<and>
   walk pool_negative 14 \<noteq> None \<and>
   0 <s total_weight pool_min_max \<and> walk pool_min_max 0 \<noteq> None \<and>
   0 <s total_weight pool_min_neg \<and> walk pool_min_neg 0 \<noteq> None"
proof -
  have f: "0 <s total_weight pool_min_neg" "(0 :: go_int) \<le>s 0"
    by (simp_all add: pool_min_neg_total word_sless_alt word_sle_eq)
  have h: "0 <s total_weight pool_negative" "(0 :: go_int) \<le>s 14"
    "14 <s total_weight pool_negative"
    by (simp_all add: pool_negative_total word_sless_alt word_sle_eq)
  have g: "0 <s total_weight pool_min_max" "(0 :: go_int) \<le>s 0"
    by (simp_all add: pool_min_max_total word_sless_alt word_sle_eq)
  from weighted_random_fallback_unreachable [OF h]
    weighted_random_fallback_unreachable [OF g g(1)]
    weighted_random_fallback_unreachable [OF f f(1)] h g f
  show ?thesis by simp
qed

section \<open>Plain round-robin: the claims\<close>

text \<open>
  Claim C3, as amended. Plain round-robin over \<open>N \<ge> 1\<close> servers, fresh balancer: the
  \<open>k\<close>-th call returns \<open>servers[((k - 1) mod 2^64) mod N]\<close>. This is
  \<open>servers[(k - 1) mod N]\<close> for \<open>1 \<le> k \<le> 2^64\<close>, and for every \<open>k\<close> when \<open>N\<close> divides
  \<open>2^64\<close>. So the first \<open>N\<close> calls return the servers once each in list order, and call
  \<open>N + 1\<close> returns the first server again. Call \<open>k + 2^64\<close> returns the same server as
  call \<open>k\<close>: after \<open>2^64\<close> calls the \<open>uint64\<close> counter has wrapped and the sequence starts
  again at index 0.
\<close>

theorem round_robin_kth_call:
  assumes "ss \<noteq> []" and "length ss < 2 ^ 64" and "NewRoundRobinBalancer ss = Inr b"
    and "1 \<le> k"
  shows "rr_kth k b = ss ! (((k - 1) mod 2 ^ 64) mod length ss) \<and>
         (k \<le> 2 ^ 64 \<longrightarrow> rr_kth k b = ss ! ((k - 1) mod length ss)) \<and>
         (length ss dvd 2 ^ 64 \<longrightarrow> rr_kth k b = ss ! ((k - 1) mod length ss)) \<and>
         map (\<lambda>i. rr_kth (Suc i) b) [0 ..< length ss] = ss \<and>
         rr_kth (length ss + 1) b = ss ! 0 \<and>
         rr_kth (k + 2 ^ 64) b = rr_kth k b"
proof -
  from assms(3) have b: "b = \<lparr>servers = ss, index = 0\<rparr>"
    by (simp add: NewRoundRobinBalancer_def)
  have kth: "rr_kth (Suc j) b = ss ! ((j mod 2 ^ 64) mod length ss)" for j
    unfolding b using assms(1,2) by (rule rr_kth_formula)
  from assms(4) obtain j where j: "k = Suc j" by (cases k) simp_all
  have first: "rr_kth k b = ss ! (((k - 1) mod 2 ^ 64) mod length ss)"
    using kth [of j] j by simp
  have second: "rr_kth k b = ss ! ((k - 1) mod length ss)" if "k \<le> 2 ^ 64"
  proof -
    from that j have "j mod 2 ^ 64 = j" by simp
    with kth [of j] j show ?thesis by simp
  qed
  have divides: "rr_kth k b = ss ! ((k - 1) mod length ss)" if "length ss dvd 2 ^ 64"
  proof -
    from that have "(j mod 2 ^ 64) mod length ss = j mod length ss"
      by (rule mod_mod_cancel)
    with kth [of j] j show ?thesis by simp
  qed
  have third: "map (\<lambda>i. rr_kth (Suc i) b) [0 ..< length ss] = ss"
  proof (rule nth_equalityI)
    show "length (map (\<lambda>i. rr_kth (Suc i) b) [0 ..< length ss]) = length ss" by simp
  next
    fix i assume "i < length (map (\<lambda>i. rr_kth (Suc i) b) [0 ..< length ss])"
    then have i: "i < length ss" by simp
    with assms(2) have "i mod 2 ^ 64 = i" by simp
    with i kth [of i] have "rr_kth (Suc i) b = ss ! i" by simp
    moreover from i have "map (\<lambda>i. rr_kth (Suc i) b) [0 ..< length ss] ! i = rr_kth (Suc i) b"
      by simp
    ultimately show "map (\<lambda>i. rr_kth (Suc i) b) [0 ..< length ss] ! i = ss ! i" by simp
  qed
  have fourth: "rr_kth (length ss + 1) b = ss ! 0"
  proof -
    from assms(2) have "length ss mod 2 ^ 64 = length ss" by simp
    with kth [of "length ss"] show ?thesis by simp
  qed
  have wrap: "rr_kth (k + 2 ^ 64) b = rr_kth k b"
  proof -
    have "k + 2 ^ 64 = Suc (j + 2 ^ 64)" using j by simp
    then have "rr_kth (k + 2 ^ 64) b = ss ! (((j + 2 ^ 64) mod 2 ^ 64) mod length ss)"
      by (simp only: kth)
    also have "(j + 2 ^ 64) mod 2 ^ 64 = j mod (2 ^ 64 :: nat)" by simp
    finally show ?thesis using kth [of j] j by simp
  qed
  from first second divides third fourth wrap show ?thesis by blast
qed

theorem round_robin_kth_call_witness:
  "NewRoundRobinBalancer three_servers = Inr \<lparr>servers = three_servers, index = 0\<rparr> \<and>
   rr_kth 5 \<lparr>servers = three_servers, index = 0\<rparr> = ''s2'' \<and>
   map (\<lambda>i. rr_kth (Suc i) \<lparr>servers = three_servers, index = 0\<rparr>)
     [0 ..< length three_servers] = [''s1'', ''s2'', ''s3''] \<and>
   rr_kth (length three_servers + 1) \<lparr>servers = three_servers, index = 0\<rparr> = ''s1'' \<and>
   rr_kth (5 + 2 ^ 64) \<lparr>servers = three_servers, index = 0\<rparr> = ''s2'' \<and>
   length two_servers dvd 2 ^ 64 \<and>
   rr_kth 18446744073709551618 \<lparr>servers = two_servers, index = 0\<rparr>
     = two_servers ! ((18446744073709551618 - 1) mod length two_servers) \<and>
   rr_kth 18446744073709551618 \<lparr>servers = two_servers, index = 0\<rparr> = ''s2''"
proof -
  have h1: "three_servers \<noteq> []" by (simp add: three_servers_def)
  have h2: "length three_servers < 2 ^ 64" by (simp add: three_servers_def)
  have h3: "NewRoundRobinBalancer three_servers = Inr \<lparr>servers = three_servers, index = 0\<rparr>"
    by (simp add: NewRoundRobinBalancer_def)
  have h4: "(1::nat) \<le> 5" by simp
  have h5: "(5::nat) \<le> 2 ^ 64" by simp
  have len: "length three_servers = 3" by (simp add: three_servers_def)
  have nths: "three_servers ! 0 = ''s1''" "three_servers ! Suc 0 = ''s2''"
    by (simp_all add: three_servers_def)
  note w = round_robin_kth_call [OF h1 h2 h3 h4]
  from w h5 have a: "rr_kth 5 \<lparr>servers = three_servers, index = 0\<rparr>
                       = three_servers ! ((5 - 1) mod length three_servers)"
    by blast
  from w have b: "map (\<lambda>i. rr_kth (Suc i) \<lparr>servers = three_servers, index = 0\<rparr>)
                    [0 ..< length three_servers] = three_servers"
    by blast
  from w have c: "rr_kth (length three_servers + 1) \<lparr>servers = three_servers, index = 0\<rparr>
                    = three_servers ! 0"
    by blast
  from w have d: "rr_kth (5 + 2 ^ 64) \<lparr>servers = three_servers, index = 0\<rparr>
                    = rr_kth 5 \<lparr>servers = three_servers, index = 0\<rparr>"
    by blast
  from a have a': "rr_kth 5 \<lparr>servers = three_servers, index = 0\<rparr> = ''s2''"
    by (simp add: len nths)
  from b have b': "map (\<lambda>i. rr_kth (Suc i) \<lparr>servers = three_servers, index = 0\<rparr>)
                    [0 ..< length three_servers] = [''s1'', ''s2'', ''s3'']"
    by (simp only: three_servers_def)
  from c have c': "rr_kth (length three_servers + 1) \<lparr>servers = three_servers, index = 0\<rparr>
                    = ''s1''"
    by (simp only: nths)
  from d a' have d': "rr_kth (5 + 2 ^ 64) \<lparr>servers = three_servers, index = 0\<rparr> = ''s2''"
    by simp
  have g1: "two_servers \<noteq> []" by (simp add: two_servers_def)
  have g2: "length two_servers < 2 ^ 64" by (simp add: two_servers_def)
  have g3: "NewRoundRobinBalancer two_servers = Inr \<lparr>servers = two_servers, index = 0\<rparr>"
    by (simp add: NewRoundRobinBalancer_def)
  have g4: "(1::nat) \<le> 18446744073709551618" by simp
  have "(2::nat) dvd 2 ^ 64" by (rule dvd_power) simp
  moreover have "length two_servers = 2" by (simp add: two_servers_def)
  ultimately have g5: "length two_servers dvd 2 ^ 64" by simp
  from round_robin_kth_call [OF g1 g2 g3 g4] g5
  have e: "rr_kth 18446744073709551618 \<lparr>servers = two_servers, index = 0\<rparr>
             = two_servers ! ((18446744073709551618 - 1) mod length two_servers)"
    by blast
  have "(18446744073709551618 - 1) mod length two_servers = Suc 0"
    by (simp add: \<open>length two_servers = 2\<close>)
  with e have e': "rr_kth 18446744073709551618 \<lparr>servers = two_servers, index = 0\<rparr> = ''s2''"
    by (simp add: two_servers_def)
  from h3 a' b' c' d' g5 e e' show ?thesis by blast
qed

text \<open>The claim as written fails once the counter has wrapped: with three servers, call
  \<open>2^64 + 1\<close> returns the first server, where \<open>(k - 1) mod N = 1\<close> names the second.\<close>

theorem round_robin_kth_call_counterexample:
  "NewRoundRobinBalancer three_servers = Inr \<lparr>servers = three_servers, index = 0\<rparr> \<and>
   rr_kth 18446744073709551617 \<lparr>servers = three_servers, index = 0\<rparr> = ''s1'' \<and>
   three_servers ! ((18446744073709551617 - 1) mod length three_servers) = ''s2'' \<and>
   rr_kth 18446744073709551617 \<lparr>servers = three_servers, index = 0\<rparr>
     \<noteq> three_servers ! ((18446744073709551617 - 1) mod length three_servers)"
proof -
  have h1: "three_servers \<noteq> []" by (simp add: three_servers_def)
  have h2: "length three_servers < 2 ^ 64" by (simp add: three_servers_def)
  have k: "(18446744073709551617::nat) = Suc 18446744073709551616" by simp
  have "rr_kth 18446744073709551617 \<lparr>servers = three_servers, index = 0\<rparr> = ''s1''"
    unfolding k rr_kth_formula [OF h1 h2] by (simp add: three_servers_def)
  then show ?thesis by (simp add: NewRoundRobinBalancer_def three_servers_def)
qed

text \<open>
  Claim C7, as amended. Package balance's constructor has no check: it creates an instance
  for every list, the empty one included, and every \<open>Next\<close> on an instance without servers
  returns the empty string and leaves the counter alone. The copy in package backend fails
  fatally on the empty list, and only on it.
\<close>

theorem round_robin_empty_construction:
  "NewRoundRobinBalancer ss = Inr \<lparr>servers = ss, index = 0\<rparr> \<and>
   RR_Next \<lparr>servers = [], index = c\<rparr> = ('''', \<lparr>servers = [], index = c\<rparr>) \<and>
   rr_kth k \<lparr>servers = [], index = 0\<rparr> = '''' \<and>
   backend_NewRoundRobinBalancer [] = Inl ServersEmpty \<and>
   (backend_NewRoundRobinBalancer ss = Inr \<lparr>servers = ss, index = 0\<rparr>) = (ss \<noteq> [])"
proof -
  have stay: "rr_after j \<lparr>servers = [], index = 0\<rparr> = \<lparr>servers = [], index = 0\<rparr>" for j
    by (induction j) (simp_all add: rr_after_def RR_Next_def)
  show ?thesis
    by (simp add: stay rr_kth_def NewRoundRobinBalancer_def RR_Next_def
        backend_NewRoundRobinBalancer_def)
qed

text \<open>Package balance creates an instance from the empty list.\<close>

theorem round_robin_empty_construction_counterexample:
  "NewRoundRobinBalancer [] = Inr \<lparr>servers = [], index = 0\<rparr>"
  by (simp add: NewRoundRobinBalancer_def)

section \<open>Smooth weighted round-robin: the claims\<close>

text \<open>
  Claim C1. Smooth weighted round-robin over entries with positive weights \<open>w_1..w_N\<close> and
  all accumulators at 0: among the first \<open>\<Sum>w_i\<close> consecutive calls of \<open>Next\<close>, entry \<open>i\<close>
  is returned exactly \<open>w_i\<close> times. The instance for the weights 5, 1, 1 (seven calls,
  counts 5, 1 and 1) follows the theorem.
\<close>

theorem smooth_rr_counts:
  assumes zero: "\<forall>n\<in>set (nodes r). 0 < weight n \<and> current n = 0"
    and i: "i < length (nodes r)"
  shows "count_list (srr_run (nat (sum_list (map weight (nodes r)))) r) (Some i)
           = nat (weight (nodes r ! i))"
proof -
  let ?N = "length (nodes r)"
  let ?T = "weights_total (nodes r)"
  let ?K = "nat ?T"
  let ?n = "\<lambda>j. int (count_list (srr_run ?K r) (Some j))"
  let ?w = "\<lambda>j. weight (nodes r ! j)"
  from i have ne: "nodes r \<noteq> []" by auto
  have pos: "\<forall>j<?N. 0 < ?w j" using zero by simp
  have cur0: "\<forall>j<?N. current (nodes r ! j) = 0" using zero by simp
  have T: "0 < ?T" using ne pos by (rule weights_total_pos)
  have sum0: "sum_list (map current (nodes r)) = 0"
    using cur0 by (simp add: sum_list_map_nth)
  have low: "\<forall>j<?N. - ?T < current (nodes r ! j)" using cur0 T by simp
  have cur: "current (nodes (srr_after ?K r) ! j) = ?T * (?w j - ?n j)" if "j < ?N" for j
    using srr_after_current [OF that, of ?K] cur0 that T by (simp add: algebra_simps)
  have le: "0 \<le> ?w j - ?n j" if "j < ?N" for j
  proof -
    from srr_after_lower [OF pos sum0 low that, of ?K] cur [OF that]
    have "?T * (-1) < ?T * (?w j - ?n j)" by simp
    with T have "-1 < ?w j - ?n j" by (simp only: mult_less_cancel_left_pos)
    then show ?thesis by simp
  qed
  have "(\<Sum>j<?N. ?T * (?w j - ?n j)) = sum_list (map current (nodes (srr_after ?K r)))"
    by (simp add: sum_list_map_nth srr_after_length cur)
  also have "\<dots> = 0" by (simp add: srr_after_sum sum0)
  finally have "?T * (\<Sum>j<?N. ?w j - ?n j) = 0" by (simp add: sum_distrib_left)
  with T have "(\<Sum>j<?N. ?w j - ?n j) = 0" by simp
  moreover have "(\<Sum>j<?N. ?w j - ?n j) = 0 \<longleftrightarrow> (\<forall>j\<in>{..<?N}. ?w j - ?n j = 0)"
  proof (rule sum_nonneg_eq_0_iff)
    show "finite {..<?N}" by simp
  next
    fix j assume "j \<in> {..<?N}"
    then have "j < ?N" by simp
    then show "0 \<le> ?w j - ?n j" by (rule le)
  qed
  ultimately have "\<forall>j\<in>{..<?N}. ?w j - ?n j = 0" by blast
  with i have "?w i - ?n i = 0" by simp
  then have "?n i = ?w i" by simp
  then show ?thesis by (simp add: weights_total_def)
qed

theorem smooth_rr_counts_witness:
  "NewSmoothRRBalancer nodes_511 = Inr balancer_511 \<and>
   nat (sum_list (map weight (nodes balancer_511))) = 7 \<and>
   count_list (srr_run 7 balancer_511) (Some 0) = 5 \<and>
   count_list (srr_run 7 balancer_511) (Some 1) = 1 \<and>
   count_list (srr_run 7 balancer_511) (Some 2) = 1 \<and>
   served balancer_511 (srr_run 7 balancer_511) = [''a'', ''a'', ''b'', ''a'', ''c'', ''a'', ''a'']"
proof -
  have h: "\<forall>n\<in>set (nodes balancer_511). 0 < weight n \<and> current n = 0"
    by (simp add: balancer_511_def nodes_511_def)
  have len: "0 < length (nodes balancer_511)" "1 < length (nodes balancer_511)"
    "2 < length (nodes balancer_511)"
    by (simp_all add: balancer_511_def nodes_511_def)
  have total: "nat (sum_list (map weight (nodes balancer_511))) = 7"
    by (simp add: balancer_511_def nodes_511_def)
  have new: "NewSmoothRRBalancer nodes_511 = Inr balancer_511"
    by (simp add: NewSmoothRRBalancer_def balancer_511_def nodes_511_def maxWeight_def
        maxTotalWeight_def)
  have c0: "count_list (srr_run 7 balancer_511) (Some 0) = 5"
    using smooth_rr_counts [OF h len(1)] unfolding total
    by (simp add: balancer_511_def nodes_511_def)
  have c1: "count_list (srr_run 7 balancer_511) (Some 1) = 1"
    using smooth_rr_counts [OF h len(2)] unfolding total
    by (simp add: balancer_511_def nodes_511_def)
  have c2: "count_list (srr_run 7 balancer_511) (Some 2) = 1"
    using smooth_rr_counts [OF h len(3)] unfolding total
    by (simp add: balancer_511_def nodes_511_def)
  have run: "srr_run 7 balancer_511
               = [Some 0, Some 0, Some 1, Some 0, Some 2, Some 0, Some 0]"
    by (simp add: eval_nat_numeral SRR_Next_def balancer_511_def nodes_511_def)
  have names: "served balancer_511 (srr_run 7 balancer_511)
                 = [''a'', ''a'', ''b'', ''a'', ''c'', ''a'', ''a'']"
    unfolding run by (simp add: served_def balancer_511_def nodes_511_def)
  from new total c0 c1 c2 names show ?thesis by blast
qed

text \<open>
  Claim C4. \<open>NewSmoothRRBalancer\<close> panics if and only if the list is empty, or some weight
  is \<open>\<le> 0\<close>, or some weight exceeds 1,000,000, or the sum of the weights exceeds
  10,000,000; in every other case it returns the instance over the given nodes.
\<close>

theorem smooth_rr_construction:
  "((\<exists>e. NewSmoothRRBalancer ns = Inl e) \<longleftrightarrow>
      ns = [] \<or> (\<exists>n\<in>set ns. weight n \<le> 0) \<or> (\<exists>n\<in>set ns. 1000000 < weight n) \<or>
      10000000 < sum_list (map weight ns)) \<and>
   ((\<forall>e. NewSmoothRRBalancer ns \<noteq> Inl e) \<longleftrightarrow> NewSmoothRRBalancer ns = Inr \<lparr>nodes = ns\<rparr>)"
proof (cases "check_weights ns 0")
  case (Inl e)
  then have "\<exists>n\<in>set ns. weight n \<le> 0 \<or> maxWeight < weight n"
    using check_weights_Inl [of ns 0] by blast
  moreover have "NewSmoothRRBalancer ns = Inl NodesEmpty \<or> NewSmoothRRBalancer ns = Inl e"
    using Inl by (simp add: NewSmoothRRBalancer_def)
  ultimately show ?thesis by (auto simp: maxWeight_def)
next
  case (Inr t)
  then have ok: "\<forall>n\<in>set ns. 0 < weight n \<and> weight n \<le> maxWeight"
    and t: "t = sum_list (map weight ns)"
    using check_weights_Inr [of ns 0 t] by simp_all
  show ?thesis
  proof (cases "ns = [] \<or> maxTotalWeight < t")
    case True
    then have "\<exists>e. NewSmoothRRBalancer ns = Inl e"
      using Inr by (auto simp: NewSmoothRRBalancer_def)
    with True t show ?thesis by (auto simp: maxTotalWeight_def)
  next
    case False
    then have "NewSmoothRRBalancer ns = Inr \<lparr>nodes = ns\<rparr>"
      using Inr by (simp add: NewSmoothRRBalancer_def)
    with False t ok show ?thesis
      by (auto simp: maxTotalWeight_def maxWeight_def not_less)
  qed
qed

theorem smooth_rr_construction_witness:
  "NewSmoothRRBalancer nodes_511 = Inr \<lparr>nodes = nodes_511\<rparr> \<and>
   (\<exists>e. NewSmoothRRBalancer [] = Inl e) \<and>
   (\<exists>e. NewSmoothRRBalancer [\<lparr>server = ''a'', current = 0, weight = 0\<rparr>] = Inl e) \<and>
   (\<exists>e. NewSmoothRRBalancer [\<lparr>server = ''a'', current = 0, weight = - 1\<rparr>] = Inl e) \<and>
   (\<exists>e. NewSmoothRRBalancer [\<lparr>server = ''a'', current = 0, weight = 1000001\<rparr>] = Inl e) \<and>
   (\<exists>e. NewSmoothRRBalancer (replicate 11 \<lparr>server = ''a'', current = 0, weight = 1000000\<rparr>)
          = Inl e)"
proof -
  have "\<not> (nodes_511 = [] \<or> (\<exists>n\<in>set nodes_511. weight n \<le> 0) \<or>
            (\<exists>n\<in>set nodes_511. 1000000 < weight n) \<or>
            10000000 < sum_list (map weight nodes_511))"
    by (simp add: nodes_511_def)
  with smooth_rr_construction [of nodes_511]
  have a: "NewSmoothRRBalancer nodes_511 = Inr \<lparr>nodes = nodes_511\<rparr>" by blast
  have b: "\<exists>e. NewSmoothRRBalancer [] = Inl e"
    using smooth_rr_construction [of "[]"] by blast
  have c: "\<exists>e. NewSmoothRRBalancer [\<lparr>server = ''a'', current = 0, weight = 0\<rparr>] = Inl e"
    using smooth_rr_construction [of "[\<lparr>server = ''a'', current = 0, weight = 0\<rparr>]"] by simp
  have d: "\<exists>e. NewSmoothRRBalancer [\<lparr>server = ''a'', current = 0, weight = - 1\<rparr>] = Inl e"
    using smooth_rr_construction [of "[\<lparr>server = ''a'', current = 0, weight = - 1\<rparr>]"] by simp
  have e: "\<exists>e. NewSmoothRRBalancer [\<lparr>server = ''a'', current = 0, weight = 1000001\<rparr>] = Inl e"
    using smooth_rr_construction [of "[\<lparr>server = ''a'', current = 0, weight = 1000001\<rparr>]"]
    by simp
  have f: "\<exists>e. NewSmoothRRBalancer (replicate 11 \<lparr>server = ''a'', current = 0, weight = 1000000\<rparr>)
             = Inl e"
    using smooth_rr_construction
      [of "replicate 11 \<lparr>server = ''a'', current = 0, weight = 1000000\<rparr>"]
    by (simp add: sum_list_replicate)
  from a b c d e f show ?thesis by blast
qed

text \<open>
  Claim C6. Smooth weighted round-robin with weights 4 and 1 from the zero state: no five
  consecutive calls, wherever the window lies in the sequence, all return the heavier entry,
  so no run of it is longer than 4. A run of 4 does occur (calls 4 to 7).
\<close>

theorem smooth_rr_run_bound:
  "take 5 (drop k (srr_run n balancer_41)) \<noteq> replicate 5 (Some 0) \<and>
   take 4 (drop 3 (srr_run 7 balancer_41)) = replicate 4 (Some 0)"
proof
  show "take 5 (drop k (srr_run n balancer_41)) \<noteq> replicate 5 (Some 0)"
  proof (cases "5 \<le> n - k")
    case True
    then have "take 5 (drop k (srr_run n balancer_41)) = srr_run 5 (srr_after k balancer_41)"
      by (simp add: drop_srr_run take_srr_run min_def)
    moreover have "Some 1 \<notin> set (replicate 5 (Some (0::nat)))" by simp
    ultimately show ?thesis using balancer_41_window_light [of k] by metis
  next
    case False
    then have short: "length (take 5 (drop k (srr_run n balancer_41))) < 5"
      by (simp add: length_srr_run)
    show ?thesis
    proof
      assume "take 5 (drop k (srr_run n balancer_41)) = replicate 5 (Some 0)"
      then have "length (take 5 (drop k (srr_run n balancer_41))) = 5"
        by (simp only: length_replicate)
      with short show False by simp
    qed
  qed
next
  have "srr_run 7 balancer_41 = [Some 0, Some 0, Some 1, Some 0, Some 0, Some 0, Some 0]"
    by (simp add: eval_nat_numeral SRR_Next_def balancer_41_def nodes_41_def)
  then show "take 4 (drop 3 (srr_run 7 balancer_41)) = replicate 4 (Some 0)"
    by (simp add: eval_nat_numeral)
qed




end
